theory Spec2Isabelle
  imports Main
begin

section \<open>Data model of App.tsx\<close>

text \<open>
  The source keeps one record per cell and the board as an array of rows.
  JavaScript numbers are embedded as follows: coordinates are integers
  (type \<open>int\<close>, so that negative coordinates exist), the adjacent-mine count and
  the timer are natural numbers.
\<close>

record cell =
  isMine :: bool
  isOpen :: bool
  isFlagged :: bool
  adjacentMines :: nat

type_synonym board = "cell list list"

definition BOARD_SIZE :: int where
  "BOARD_SIZE = 10"

definition MINES_COUNT :: nat where
  "MINES_COUNT = 10"

text \<open>
  \<open>board[row][col]\<close> where the source has checked the coordinates against
  \<open>BOARD_SIZE\<close> before the read, and the in-place update of one cell.
  Every board the program holds is made by \<open>createBoard\<close> and copied by
  \<open>map\<close>, hence has \<open>BOARD_SIZE\<close> rows of \<open>BOARD_SIZE\<close> cells
  (\<open>wf_board\<close>); on such a board a guarded read is in range.
\<close>

definition cellAt :: "board \<Rightarrow> int \<Rightarrow> int \<Rightarrow> cell" where
  "cellAt b row col = b ! nat row ! nat col"

definition updAt :: "board \<Rightarrow> int \<Rightarrow> int \<Rightarrow> (cell \<Rightarrow> cell) \<Rightarrow> board" where
  "updAt b row col f = b[nat row := (b ! nat row)[nat col := f (b ! nat row ! nat col)]]"

definition inb :: "int \<Rightarrow> int \<Rightarrow> bool" where
  "inb row col \<longleftrightarrow> 0 \<le> row \<and> row < BOARD_SIZE \<and> 0 \<le> col \<and> col < BOARD_SIZE"

definition wf_board :: "board \<Rightarrow> bool" where
  "wf_board b \<longleftrightarrow> length b = nat BOARD_SIZE \<and> list_all (\<lambda>row. length row = nat BOARD_SIZE) b"

text \<open>
  An unguarded read \<open>board[row][col].field\<close>: \<open>board[row]\<close> is
  \<open>undefined\<close> when \<open>row\<close> is no index of the array, and so is
  \<open>board[row][col]\<close> when \<open>col\<close> is no index of the row; reading a property
  of \<open>undefined\<close> throws a TypeError.
\<close>

datatype error = TypeError

definition readCell :: "board \<Rightarrow> int \<Rightarrow> int \<Rightarrow> error + cell" where
  "readCell b row col =
     (if 0 \<le> row \<and> nat row < length b
      then (if 0 \<le> col \<and> nat col < length (b ! nat row)
            then Inr (b ! nat row ! nat col)
            else Inl TypeError)
      else Inl TypeError)"

section \<open>getAdjacentCells\<close>

definition directions :: "(int \<times> int) list" where
  "directions =
     [(-1, -1), (-1, 0), (-1, 1),
      (0, -1),           (0, 1),
      (1, -1),  (1, 0),  (1, 1)]"

definition getAdjacentCells :: "board \<Rightarrow> int \<Rightarrow> int \<Rightarrow> cell list" where
  "getAdjacentCells b row col =
     map the (filter (\<lambda>cell. cell \<noteq> None)
       (map (\<lambda>(dx, dy).
               let newRow = row + dx; newCol = col + dy
               in if newRow \<ge> 0 \<and> newRow < BOARD_SIZE \<and> newCol \<ge> 0 \<and> newCol < BOARD_SIZE
                  then Some (cellAt b newRow newCol)
                  else None)
            directions))"

section \<open>createBoard\<close>

definition blankCell :: cell where
  "blankCell = \<lparr>isMine = False, isOpen = False, isFlagged = False, adjacentMines = 0\<rparr>"

definition blankBoard :: board where
  "blankBoard = replicate (nat BOARD_SIZE) (replicate (nat BOARD_SIZE) blankCell)"

text \<open>
  The mine-placing loop draws \<open>Math.floor(Math.random() * BOARD_SIZE)\<close> twice
  per iteration. The draws are a parameter of the model: a list of (row, col)
  pairs, consumed from the front. The loop has no bound of its own, so running
  out of draws before \<open>MINES_COUNT\<close> mines are placed is the value \<open>None\<close>.
\<close>

fun placeMines :: "(int \<times> int) list \<Rightarrow> board \<Rightarrow> nat \<Rightarrow> board option" where
  "placeMines draws b minesPlaced =
     (if minesPlaced < MINES_COUNT
      then (case draws of
              [] \<Rightarrow> None
            | (row, col) # rest \<Rightarrow>
                if \<not> isMine (cellAt b row col)
                then placeMines rest (updAt b row col (\<lambda>c. c\<lparr>isMine := True\<rparr>)) (minesPlaced + 1)
                else placeMines rest b minesPlaced)
      else Some b)"

definition countCell :: "board \<Rightarrow> int \<Rightarrow> int \<Rightarrow> board" where
  "countCell b row col =
     (if \<not> isMine (cellAt b row col)
      then updAt b row col
             (\<lambda>c. c\<lparr>adjacentMines := length (filter isMine (getAdjacentCells b row col))\<rparr>)
      else b)"

definition countAll :: "board \<Rightarrow> board" where
  "countAll b =
     fold (\<lambda>row b1. fold (\<lambda>col b2. countCell b2 row col) [0..BOARD_SIZE - 1] b1)
          [0..BOARD_SIZE - 1] b"

definition createBoard :: "(int \<times> int) list \<Rightarrow> board option" where
  "createBoard draws = map_option countAll (placeMines draws blankBoard 0)"

section \<open>formatTime\<close>

text \<open>
  The source computes on IEEE doubles. The embedding takes the seconds as a
  natural number and is the source's function on the integers up to \<open>2 ^ 53\<close>:
  there every operand and result is an exactly represented integer,
  \<open>Math.floor(seconds / 60)\<close> is \<open>div\<close> (the quotient is below \<open>2 ^ 48\<close>, where
  doubles are spaced \<open>1 / 32\<close> apart at most, so the rounded quotient does not
  reach the next integer), \<open>seconds % 60\<close> is \<open>mod\<close>, and the template
  literal prints the integer in decimal without padding. Beyond \<open>2 ^ 53\<close> the
  source rounds and the embedding does not follow it.
\<close>

definition digitChar :: "nat \<Rightarrow> char" where
  "digitChar d = ''0123456789'' ! d"

function natToString :: "nat \<Rightarrow> string" where
  "natToString n = (if n < 10 then [digitChar n] else natToString (n div 10) @ [digitChar (n mod 10)])"
  by pat_completeness auto
termination
  by (relation "measure (\<lambda>n. n)") auto

definition formatTime :: "nat \<Rightarrow> string" where
  "formatTime seconds =
     (let mins = seconds div 60;
          secs = seconds mod 60
      in natToString mins @ '':'' @ (if secs < 10 then ''0'' else '''') @ natToString secs)"

section \<open>The application state and the reveal operation\<close>

record game =
  board :: board
  isGameOver :: bool
  isGameWon :: bool
  showAllMines :: bool
  timer :: nat
  isTimerActive :: bool

datatype outcome = InProgress | Win | Loss

text \<open>
  The outcome is what the view shows: a message only when \<open>isGameOver\<close> or
  \<open>isGameWon\<close> holds, the congratulation when \<open>isGameWon\<close> holds.
\<close>

definition outcome :: "game \<Rightarrow> outcome" where
  "outcome g = (if isGameOver g \<or> isGameWon g then (if isGameWon g then Win else Loss) else InProgress)"

text \<open>
  \<open>neighbors[index] ? 1 : 0\<close>: the elements of \<open>neighbors\<close> are cell objects
  (\<open>getAdjacentCells\<close> has filtered \<open>null\<close> out), and every object is truthy.
\<close>

definition truthy :: "cell \<Rightarrow> bool" where
  "truthy c = True"

function openCellRecursive :: "board \<Rightarrow> int \<Rightarrow> int \<Rightarrow> board" where
  "openCellRecursive b row col =
     (if row < 0 \<or> row \<ge> BOARD_SIZE \<or> col < 0 \<or> col \<ge> BOARD_SIZE then b
      else if isOpen (cellAt b row col) \<or> isMine (cellAt b row col) then b
      else
        let b1 = updAt b row col (\<lambda>c. c\<lparr>isOpen := True\<rparr>)
        in if adjacentMines (cellAt b1 row col) = 0
           then fold (\<lambda>n acc.
                        let nr = row + (if truthy n then 1 else 0);
                            nc = col + (if truthy n then 1 else 0)
                        in openCellRecursive acc nr nc)
                     (getAdjacentCells b1 row col) b1
           else b1)"
  by pat_completeness auto
termination
  by (relation "measure (\<lambda>(b, row, col). nat (BOARD_SIZE - row))")
     (auto simp: truthy_def BOARD_SIZE_def)

fun rowAllSafe :: "cell list \<Rightarrow> bool" where
  "rowAllSafe [] = True"
| "rowAllSafe (cell # rest) = (if \<not> isMine cell \<and> \<not> isOpen cell then False else rowAllSafe rest)"

fun checkWin :: "board \<Rightarrow> bool" where
  "checkWin [] = True"
| "checkWin (row # rows) = (if rowAllSafe row then checkWin rows else False)"

text \<open>
  \<open>openCell\<close> reads \<open>board[row][col]\<close> before any bounds check, unless the
  game is over (\<open>||\<close> evaluates left to right and stops at the first true
  operand). The copy \<open>board.map(row => row.map(cell => ({ ...cell })))\<close> is
  the identity on values. The state setters take effect together when the
  handler returns.
\<close>

definition openCell :: "game \<Rightarrow> int \<Rightarrow> int \<Rightarrow> error + game" where
  "openCell g row col =
     (if isGameOver g \<or> isGameWon g then Inr g
      else case readCell (board g) row col of
             Inl e \<Rightarrow> Inl e
           | Inr target \<Rightarrow>
               if isOpen target \<or> isFlagged target then Inr g
               else
                 let newBoard = openCellRecursive (board g) row col
                 in if isMine (cellAt newBoard row col)
                    then Inr (g\<lparr>board := newBoard, isGameOver := True,
                                showAllMines := True, isTimerActive := False\<rparr>)
                    else if checkWin newBoard
                    then Inr (g\<lparr>board := newBoard, isGameWon := True, isTimerActive := False\<rparr>)
                    else Inr (g\<lparr>board := newBoard\<rparr>))"

definition newGame :: "board \<Rightarrow> game" where
  "newGame b = \<lparr>board = b, isGameOver = False, isGameWon = False,
                showAllMines = False, timer = 0, isTimerActive = True\<rparr>"

section \<open>Notions used to state the properties\<close>

text \<open>
  Reading a string as a decimal numeral, by the character codes of the digits
  (48 to 57), and what it means for a numeral to be unpadded: no leading zero,
  except the numeral \<open>0\<close> itself.
\<close>

definition digitValue :: "char \<Rightarrow> nat option" where
  "digitValue c =
     (let k = (of_char c :: nat) in if 48 \<le> k \<and> k \<le> 57 then Some (k - 48) else None)"

definition decimalValue :: "string \<Rightarrow> nat option" where
  "decimalValue cs =
     (if cs = [] then None
      else fold (\<lambda>c acc. case acc of
                             None \<Rightarrow> None
                           | Some a \<Rightarrow> (case digitValue c of
                                          None \<Rightarrow> None
                                        | Some d \<Rightarrow> Some (10 * a + d)))
                cs (Some 0))"

definition unpadded :: "string \<Rightarrow> bool" where
  "unpadded cs \<longleftrightarrow> cs = ''0'' \<or> (cs \<noteq> [] \<and> hd cs \<noteq> CHR ''0'')"

text \<open>The coordinates of the open cells of a board, in row-major order.\<close>

definition openCells :: "board \<Rightarrow> (int \<times> int) list" where
  "openCells b =
     concat (map (\<lambda>row. map (\<lambda>col. (row, col))
                           (filter (\<lambda>col. isOpen (cellAt b row col)) [0..BOARD_SIZE - 1]))
                 [0..BOARD_SIZE - 1])"

text \<open>
  A concrete game: the draws put the ten mines on row 0, so row 1 holds the
  numbered cells and rows 2 to 9 are one region of zero-count cells.
\<close>

definition exampleDraws :: "(int \<times> int) list" where
  "exampleDraws = map (\<lambda>col. (0, col)) [0..9]"

definition exampleBoard :: board where
  "exampleBoard =
     replicate 10 (blankCell\<lparr>isMine := True\<rparr>)
     # map (\<lambda>n. blankCell\<lparr>adjacentMines := n\<rparr>) [2, 3, 3, 3, 3, 3, 3, 3, 3, 2]
     # replicate 8 (replicate 10 blankCell)"

definition exampleGame :: game where
  "exampleGame = newGame exampleBoard"

text \<open>The example board with the cells (5, 5), (6, 6), ..., (9, 9) open.\<close>

definition diagonalBoard :: board where
  "diagonalBoard = fold (\<lambda>k b. updAt b k k (\<lambda>c. c\<lparr>isOpen := True\<rparr>)) [5..9] exampleBoard"

text \<open>
  The recursion of \<open>openCellRecursive\<close> with a bound on its depth: the same
  body, \<open>None\<close> when the bound is used up.
\<close>

fun openCellFuel :: "nat \<Rightarrow> board \<Rightarrow> int \<Rightarrow> int \<Rightarrow> board option" where
  "openCellFuel 0 b row col = None"
| "openCellFuel (Suc k) b row col =
     (if row < 0 \<or> row \<ge> BOARD_SIZE \<or> col < 0 \<or> col \<ge> BOARD_SIZE then Some b
      else if isOpen (cellAt b row col) \<or> isMine (cellAt b row col) then Some b
      else
        let b1 = updAt b row col (\<lambda>c. c\<lparr>isOpen := True\<rparr>)
        in if adjacentMines (cellAt b1 row col) = 0
           then fold (\<lambda>n acc.
                        let nr = row + (if truthy n then 1 else 0);
                            nc = col + (if truthy n then 1 else 0)
                        in case acc of None \<Rightarrow> None | Some a \<Rightarrow> openCellFuel k a nr nc)
                     (getAdjacentCells b1 row col) (Some b1)
           else Some b1)"

text \<open>
  What one reveal may do to a cell: nothing, or open a closed cell that is no
  mine. A board step relates two boards of the same shape cell by cell.
\<close>

definition cell_step :: "cell \<Rightarrow> cell \<Rightarrow> bool" where
  "cell_step c c' \<longleftrightarrow> c' = c \<or> (\<not> isMine c \<and> \<not> isOpen c \<and> c' = c\<lparr>isOpen := True\<rparr>)"

definition board_step :: "board \<Rightarrow> board \<Rightarrow> bool" where
  "board_step b b' \<longleftrightarrow> list_all2 (list_all2 cell_step) b b'"

text \<open>
  The number of mines on a board, the count \<open>createBoard\<close> stores in a safe
  cell, and the set of coordinates around a cell that the specification counts
  over: the up to eight cells at Chebyshev distance 1, clipped to the grid.
\<close>

definition minesOf :: "board \<Rightarrow> nat" where
  "minesOf b = length (filter isMine (concat b))"

definition neighbourMines :: "board \<Rightarrow> int \<Rightarrow> int \<Rightarrow> nat" where
  "neighbourMines b row col = length (filter isMine (getAdjacentCells b row col))"

definition chebyshevNeighbours :: "int \<Rightarrow> int \<Rightarrow> (int \<times> int) set" where
  "chebyshevNeighbours row col =
     {(r, c). inb r c \<and> (r, c) \<noteq> (row, col) \<and> \<bar>r - row\<bar> \<le> 1 \<and> \<bar>c - col\<bar> \<le> 1}"

text \<open>
  The invariant of the states the program reaches: the board has the program's
  shape, no mine is open, and a won game has a board that passes \<open>checkWin\<close>.
\<close>

definition noOpenMine :: "board \<Rightarrow> bool" where
  "noOpenMine b \<longleftrightarrow> list_all (list_all (\<lambda>c. \<not> (isMine c \<and> isOpen c))) b"

definition game_inv :: "game \<Rightarrow> bool" where
  "game_inv g \<longleftrightarrow> wf_board (board g) \<and> noOpenMine (board g) \<and> (isGameWon g \<longrightarrow> checkWin (board g))"

text \<open>
  The states of the application: a new game on a generated board (at start and
  at every restart), then reveals and timer ticks.
\<close>

inductive reachable :: "game \<Rightarrow> bool" where
  start: "list_all (\<lambda>(row, col). inb row col) draws \<Longrightarrow> createBoard draws = Some b
            \<Longrightarrow> reachable (newGame b)"
| reveal: "reachable g \<Longrightarrow> openCell g row col = Inr g' \<Longrightarrow> reachable g'"
| tick: "reachable g \<Longrightarrow> isTimerActive g \<Longrightarrow> reachable (g\<lparr>timer := timer g + 1\<rparr>)"

text \<open>
  The example board with every safe cell open except (1, 0), and the state
  after that last cell is revealed.
\<close>

definition almostWonBoard :: board where
  "almostWonBoard =
     updAt (map (map (\<lambda>c. c\<lparr>isOpen := \<not> isMine c\<rparr>)) exampleBoard) 1 0 (\<lambda>c. c\<lparr>isOpen := False\<rparr>)"

definition wonGame :: game where
  "wonGame = (newGame (map (map (\<lambda>c. c\<lparr>isOpen := \<not> isMine c\<rparr>)) exampleBoard))
               \<lparr>isGameWon := True, isTimerActive := False\<rparr>"

section \<open>Reads on a well-formed board\<close>

lemma wf_board_nth:
  "wf_board b \<Longrightarrow> inb row col \<Longrightarrow> nat row < length b \<and> nat col < length (b ! nat row)"
  by (auto simp: wf_board_def inb_def list_all_length)

lemma readCell_inb:
  "wf_board b \<Longrightarrow> inb row col \<Longrightarrow> readCell b row col = Inr (cellAt b row col)"
  using wf_board_nth [of b row col] by (simp add: readCell_def cellAt_def inb_def)

lemma readCell_outside:
  "wf_board b \<Longrightarrow> \<not> inb row col \<Longrightarrow> readCell b row col = Inl TypeError"
  by (auto simp: readCell_def inb_def wf_board_def list_all_length)

lemma exampleBoard_generated: "createBoard exampleDraws = Some exampleBoard"
  by code_simp

lemma exampleBoard_wf: "wf_board exampleBoard"
  by code_simp

section \<open>formatTime\<close>

lemma natToString_digit: "n < 10 \<Longrightarrow> natToString n = [digitChar n]"
  by simp

lemma natToString_two:
  "10 \<le> n \<Longrightarrow> n < 100 \<Longrightarrow> natToString n = [digitChar (n div 10), digitChar (n mod 10)]"
  by (subst natToString.simps) simp

lemma formatTime_MSS:
  "formatTime s =
     natToString (s div 60) @ '':'' @ [digitChar (s mod 60 div 10), digitChar (s mod 60 mod 10)]"
proof (cases "s mod 60 < 10")
  case True
  have "digitChar 0 = CHR ''0''" by (simp add: digitChar_def)
  with True show ?thesis
    by (simp add: formatTime_def Let_def natToString_digit del: natToString.simps)
next
  case False
  then have "10 \<le> s mod 60" "s mod 60 < 100" by auto
  then show ?thesis
    using False by (simp add: formatTime_def Let_def natToString_two del: natToString.simps)
qed

lemma digitValue_digitChar: "d < 10 \<Longrightarrow> digitValue (digitChar d) = Some d"
proof -
  assume "d < 10"
  then have "d = 0 \<or> d = 1 \<or> d = 2 \<or> d = 3 \<or> d = 4 \<or> d = 5 \<or> d = 6 \<or> d = 7 \<or> d = 8 \<or> d = 9"
    by arith
  then show ?thesis
    by (elim disjE) (simp_all add: digitChar_def digitValue_def)
qed

lemma digitChar_nonzero: "0 < d \<Longrightarrow> d < 10 \<Longrightarrow> digitChar d \<noteq> CHR ''0''"
proof
  assume d: "0 < d" "d < 10" and "digitChar d = CHR ''0''"
  then have "digitValue (CHR ''0'') = Some d"
    using digitValue_digitChar [of d] by simp
  then show False using d by (simp add: digitValue_def)
qed

lemma decimalValue_single: "digitValue c = Some d \<Longrightarrow> decimalValue [c] = Some d"
  by (simp add: decimalValue_def)

lemma decimalValue_snoc:
  "decimalValue cs = Some a \<Longrightarrow> digitValue c = Some d \<Longrightarrow> decimalValue (cs @ [c]) = Some (10 * a + d)"
  by (auto simp: decimalValue_def split: if_splits)

lemma decimalValue_natToString: "decimalValue (natToString n) = Some n"
proof (induction n rule: natToString.induct)
  case (1 n)
  show ?case
  proof (cases "n < 10")
    case True
    then show ?thesis
      by (simp add: decimalValue_single digitValue_digitChar)
  next
    case False
    then have "decimalValue (natToString (n div 10)) = Some (n div 10)"
      by (rule "1.IH")
    then have "decimalValue (natToString (n div 10) @ [digitChar (n mod 10)])
                 = Some (10 * (n div 10) + n mod 10)"
      by (rule decimalValue_snoc) (simp add: digitValue_digitChar)
    with False show ?thesis
      by (subst natToString.simps) simp
  qed
qed

lemma natToString_leading:
  "0 < n \<Longrightarrow> natToString n \<noteq> [] \<and> hd (natToString n) \<noteq> CHR ''0''"
proof (induction n rule: natToString.induct)
  case (1 n)
  show ?case
  proof (cases "n < 10")
    case True
    with "1.prems" show ?thesis
      by (simp add: digitChar_nonzero)
  next
    case False
    then have "0 < n div 10" by simp
    with False have "natToString (n div 10) \<noteq> [] \<and> hd (natToString (n div 10)) \<noteq> CHR ''0''"
      by (intro "1.IH")
    with False show ?thesis
      by (subst (1 2) natToString.simps) simp
  qed
qed

lemma natToString_unpadded: "unpadded (natToString n)"
proof (cases "n = 0")
  case True
  then show ?thesis by (simp add: unpadded_def digitChar_def)
next
  case False
  then show ?thesis using natToString_leading [of n] by (simp add: unpadded_def del: natToString.simps)
qed

text \<open>
  C9. For every number of seconds \<open>s\<close> up to \<open>2 ^ 53\<close>, \<open>formatTime s\<close> is a
  string \<open>M:SS\<close>: \<open>M\<close> is an unpadded decimal numeral whose value is
  \<open>s div 60\<close>, and \<open>SS\<close> is two decimal digits whose value is \<open>s mod 60\<close>. The
  four scenarios of the specification evaluate as given there.
\<close>

theorem formatTime_spec:
  assumes "s \<le> 2 ^ 53"
  shows "(\<exists>M d1 d2. formatTime s = M @ '':'' @ [d1, d2]
            \<and> unpadded M \<and> decimalValue M = Some (s div 60)
            \<and> decimalValue [d1, d2] = Some (s mod 60))
   \<and> formatTime 0 = ''0:00'' \<and> formatTime 59 = ''0:59''
   \<and> formatTime 60 = ''1:00'' \<and> formatTime 125 = ''2:05''"
proof -
  let ?d1 = "digitChar (s mod 60 div 10)" and ?d2 = "digitChar (s mod 60 mod 10)"
  have "decimalValue [?d1] = Some (s mod 60 div 10)"
    by (intro decimalValue_single digitValue_digitChar) simp
  then have "decimalValue ([?d1] @ [?d2]) = Some (10 * (s mod 60 div 10) + s mod 60 mod 10)"
    by (rule decimalValue_snoc) (simp add: digitValue_digitChar)
  then have two: "decimalValue [?d1, ?d2] = Some (s mod 60)" by simp
  have "formatTime s = natToString (s div 60) @ '':'' @ [?d1, ?d2]
          \<and> unpadded (natToString (s div 60))
          \<and> decimalValue (natToString (s div 60)) = Some (s div 60)
          \<and> decimalValue [?d1, ?d2] = Some (s mod 60)"
    using two by (simp add: formatTime_MSS natToString_unpadded decimalValue_natToString
                       del: natToString.simps)
  then have ex: "\<exists>M d1 d2. formatTime s = M @ '':'' @ [d1, d2]
            \<and> unpadded M \<and> decimalValue M = Some (s div 60)
            \<and> decimalValue [d1, d2] = Some (s mod 60)"
    by blast
  have "formatTime 0 = ''0:00''" by code_simp
  moreover have "formatTime 59 = ''0:59''" by code_simp
  moreover have "formatTime 60 = ''1:00''" by code_simp
  moreover have "formatTime 125 = ''2:05''" by code_simp
  ultimately show ?thesis using ex by simp
qed

theorem formatTime_spec_witness:
  "(125::nat) \<le> 2 ^ 53
   \<and> (\<exists>M d1 d2. formatTime 125 = M @ '':'' @ [d1, d2]
            \<and> unpadded M \<and> decimalValue M = Some (125 div 60)
            \<and> decimalValue [d1, d2] = Some (125 mod 60))"
proof -
  have b: "(125::nat) \<le> 2 ^ 53" by simp
  from formatTime_spec [OF b]
  have "\<exists>M d1 d2. formatTime 125 = M @ '':'' @ [d1, d2]
            \<and> unpadded M \<and> decimalValue M = Some (125 div 60)
            \<and> decimalValue [d1, d2] = Some (125 mod 60)"
    by (rule conjunct1)
  with b show ?thesis by (rule conjI)
qed

section \<open>Reveal: the cases that change nothing\<close>

text \<open>
  C4. On a board of the program's shape and an in-bounds coordinate, a reveal
  of an open cell, of a flagged cell, or in a terminal state returns the state
  it was given: board and outcome are unchanged.
\<close>

theorem openCell_noop:
  assumes "wf_board (board g)" and "inb row col"
    and "isOpen (cellAt (board g) row col) \<or> isFlagged (cellAt (board g) row col)
         \<or> outcome g = Win \<or> outcome g = Loss"
  shows "openCell g row col = Inr g"
  using assms by (auto simp: openCell_def readCell_inb outcome_def split: if_splits)

theorem openCell_noop_witness:
  "wf_board (board (exampleGame\<lparr>isGameWon := True\<rparr>)) \<and> inb 3 4
   \<and> outcome (exampleGame\<lparr>isGameWon := True\<rparr>) = Win
   \<and> openCell (exampleGame\<lparr>isGameWon := True\<rparr>) 3 4 = Inr (exampleGame\<lparr>isGameWon := True\<rparr>)"
proof -
  have w: "wf_board (board (exampleGame\<lparr>isGameWon := True\<rparr>))" by code_simp
  have i: "inb 3 4" by code_simp
  have o: "outcome (exampleGame\<lparr>isGameWon := True\<rparr>) = Win" by code_simp
  from openCell_noop [OF w i] o w i show ?thesis by simp
qed

section \<open>Reveal: a mine, and the flood fill\<close>

text \<open>
  C2. The specification has a reveal of a mine mark that cell open. In the
  example game the cell (0, 0) is a closed, unflagged mine; revealing it gives
  the outcome \<open>Loss\<close> and a board with no open cell at all:
  \<open>openCellRecursive\<close> returns at a mine before it sets \<open>isOpen\<close>.
\<close>

theorem openCell_mine_not_opened:
  "isMine (cellAt (board exampleGame) 0 0)
   \<and> map_sum id (\<lambda>g'. (outcome g', openCells (board g'))) (openCell exampleGame 0 0)
       = Inr (Loss, [])"
  by code_simp

text \<open>
  C1. The specification has a reveal of a zero-count cell open the whole
  connected region of zero-count cells and its border. In the example game
  rows 2 to 9 are such a region; revealing (5, 5) opens only the diagonal
  (5, 5), (6, 6), ..., (9, 9), because every neighbour is visited at
  \<open>(row + 1, col + 1)\<close>. The zero-count neighbour (5, 4) stays closed.
\<close>

theorem openCell_flood_fill_diagonal_only:
  "adjacentMines (cellAt (board exampleGame) 5 5) = 0
   \<and> adjacentMines (cellAt (board exampleGame) 5 4) = 0
   \<and> \<not> isMine (cellAt (board exampleGame) 5 4)
   \<and> map_sum id (\<lambda>g'. openCells (board g')) (openCell exampleGame 5 5)
       = Inr [(5, 5), (6, 6), (7, 7), (8, 8), (9, 9)]"
  by code_simp

section \<open>Reveal: termination\<close>

lemma fold_option_total:
  assumes "\<And>n a. n \<in> set xs \<Longrightarrow> F n a = Some (G n a)"
  shows "fold (\<lambda>n acc. case acc of None \<Rightarrow> None | Some a \<Rightarrow> F n a) xs (Some b) = Some (fold G xs b)"
  using assms by (induction xs arbitrary: b) auto

lemma openCellRecursive_unfold:
  "openCellRecursive b row col =
     (if row < 0 \<or> row \<ge> BOARD_SIZE \<or> col < 0 \<or> col \<ge> BOARD_SIZE then b
      else if isOpen (cellAt b row col) \<or> isMine (cellAt b row col) then b
      else if adjacentMines (cellAt (updAt b row col (\<lambda>c. c\<lparr>isOpen := True\<rparr>)) row col) = 0
      then fold (\<lambda>n acc. openCellRecursive acc (row + 1) (col + 1))
             (getAdjacentCells (updAt b row col (\<lambda>c. c\<lparr>isOpen := True\<rparr>)) row col)
             (updAt b row col (\<lambda>c. c\<lparr>isOpen := True\<rparr>))
      else updAt b row col (\<lambda>c. c\<lparr>isOpen := True\<rparr>))"
  by (subst openCellRecursive.simps) (simp add: Let_def truthy_def del: openCellRecursive.simps)

lemma openCellFuel_enough:
  "0 < k \<Longrightarrow> (0 \<le> row \<longrightarrow> nat (BOARD_SIZE - row) < k)
   \<Longrightarrow> openCellFuel k b row col = Some (openCellRecursive b row col)"
proof (induction k arbitrary: b row col)
  case 0
  then show ?case by simp
next
  case (Suc k)
  show ?case
  proof (cases "row < 0 \<or> row \<ge> BOARD_SIZE \<or> col < 0 \<or> col \<ge> BOARD_SIZE")
    case True
    then show ?thesis by simp
  next
    case False
    with Suc.prems have k: "0 < k" "nat (BOARD_SIZE - (row + 1)) < k"
      by (auto simp: BOARD_SIZE_def)
    have step: "openCellFuel k a (row + 1) (col + 1) = Some (openCellRecursive a (row + 1) (col + 1))" for a
      using k by (intro Suc.IH) auto
    have eq: "fold (\<lambda>n acc. case acc of None \<Rightarrow> None
                        | Some a \<Rightarrow> openCellFuel k a (row + 1) (col + 1)) xs (Some b1)
          = Some (fold (\<lambda>n a. openCellRecursive a (row + 1) (col + 1)) xs b1)" for xs b1
      by (rule fold_option_total) (rule step)
    show ?thesis
      using False
      by (subst openCellRecursive_unfold)
         (simp add: Let_def truthy_def eq del: openCellRecursive.simps)
  qed
qed

text \<open>
  C8. The recursion of \<open>openCellRecursive\<close> ends on every board and
  coordinate: every input is in the domain on which the recursion is
  well-founded, and a depth of \<open>BOARD_SIZE + 1\<close> calls is always enough to
  return the result. (\<open>openCell\<close> calls it once and has no loop of its own.)
\<close>

theorem openCellRecursive_terminates:
  "openCellRecursive_dom (b, row, col)
   \<and> openCellFuel (Suc (nat BOARD_SIZE)) b row col = Some (openCellRecursive b row col)"
proof -
  have "All openCellRecursive_dom"
    by (relation "measure (\<lambda>(b, row, col). nat (BOARD_SIZE - row))")
       (auto simp: truthy_def BOARD_SIZE_def)
  moreover have "openCellFuel (Suc (nat BOARD_SIZE)) b row col = Some (openCellRecursive b row col)"
    by (rule openCellFuel_enough) (auto simp: BOARD_SIZE_def)
  ultimately show ?thesis by simp
qed

section \<open>Reveal: what changes on the board\<close>

lemma cell_step_refl: "cell_step c c"
  by (simp add: cell_step_def)

lemma cell_step_trans: "cell_step a b \<Longrightarrow> cell_step b c \<Longrightarrow> cell_step a c"
  by (auto simp: cell_step_def)

lemma board_step_refl: "board_step b b"
  unfolding board_step_def by (intro list_all2_refl cell_step_refl)

lemma board_step_trans: "board_step a b \<Longrightarrow> board_step b c \<Longrightarrow> board_step a c"
  unfolding board_step_def
  by (erule list_all2_trans [rotated], assumption) (erule list_all2_trans [rotated], assumption, erule cell_step_trans)

lemma list_all2_update_refl:
  assumes "\<And>x. R x x" and "i < length xs \<longrightarrow> R (xs ! i) y"
  shows "list_all2 R xs (xs[i := y])"
proof (cases "i < length xs")
  case True
  with assms show ?thesis
    by (simp add: list_all2_conv_all_nth nth_list_update)
next
  case False
  then have "xs[i := y] = xs" by (simp add: list_update_beyond)
  with assms(1) show ?thesis
    by (simp add: list_all2_refl)
qed

lemma board_step_updAt:
  assumes "\<not> isMine (cellAt b row col)" and "\<not> isOpen (cellAt b row col)"
  shows "board_step b (updAt b row col (\<lambda>c. c\<lparr>isOpen := True\<rparr>))"
proof -
  have "cell_step (b ! nat row ! nat col) ((b ! nat row ! nat col)\<lparr>isOpen := True\<rparr>)"
    using assms by (simp add: cell_step_def cellAt_def)
  then have "list_all2 cell_step (b ! nat row)
               ((b ! nat row)[nat col := (b ! nat row ! nat col)\<lparr>isOpen := True\<rparr>])"
    by (intro list_all2_update_refl cell_step_refl) simp
  then show ?thesis
    unfolding board_step_def updAt_def
    by (intro list_all2_update_refl list_all2_refl cell_step_refl) simp
qed

lemma board_step_fold:
  assumes "\<And>n a. n \<in> set xs \<Longrightarrow> board_step a (F n a)"
  shows "board_step b (fold F xs b)"
  using assms
proof (induction xs arbitrary: b)
  case Nil
  then show ?case by (simp add: board_step_refl)
next
  case (Cons x xs)
  have "board_step b (F x b)" by (simp add: Cons.prems)
  moreover have "board_step (F x b) (fold F xs (F x b))"
    by (rule Cons.IH) (simp add: Cons.prems)
  ultimately show ?case by (auto intro: board_step_trans)
qed

lemma openCellRecursive_step: "board_step b (openCellRecursive b row col)"
proof (induction b row col rule: openCellRecursive.induct)
  case (1 b row col)
  show ?case
  proof (cases "row < 0 \<or> row \<ge> BOARD_SIZE \<or> col < 0 \<or> col \<ge> BOARD_SIZE
                \<or> isOpen (cellAt b row col) \<or> isMine (cellAt b row col)")
    case True
    then show ?thesis by (auto simp: board_step_refl)
  next
    case False
    define b1 where "b1 = updAt b row col (\<lambda>c. c\<lparr>isOpen := True\<rparr>)"
    have s1: "board_step b b1"
      unfolding b1_def using False by (intro board_step_updAt) auto
    show ?thesis
    proof (cases "adjacentMines (cellAt b1 row col) = 0")
      case zero: True
      have "board_step a (openCellRecursive a (row + (if truthy n then 1 else 0))
                                             (col + (if truthy n then 1 else 0)))"
        if "n \<in> set (getAdjacentCells b1 row col)" for n a
        using False zero that by (intro "1.IH" [OF _ _ b1_def]) auto
      then have "board_step b1 (fold (\<lambda>n acc. openCellRecursive acc
                    (row + (if truthy n then 1 else 0)) (col + (if truthy n then 1 else 0)))
                    (getAdjacentCells b1 row col) b1)"
        by (intro board_step_fold)
      with s1 show ?thesis
        using False zero
        by (subst openCellRecursive.simps)
           (auto simp: Let_def b1_def [symmetric] intro: board_step_trans simp del: openCellRecursive.simps)
    next
      case nonzero: False
      with s1 show ?thesis
        using False
        by (subst openCellRecursive.simps)
           (auto simp: Let_def b1_def [symmetric] simp del: openCellRecursive.simps)
    qed
  qed
qed

lemma list_all2_list_all:
  assumes "list_all2 R xs ys" and "list_all P xs" and "\<And>x y. R x y \<Longrightarrow> P x \<Longrightarrow> Q y"
  shows "list_all Q ys"
  using assms by (auto simp: list_all_length list_all2_conv_all_nth)

lemma board_step_wf: "board_step b b' \<Longrightarrow> wf_board b \<Longrightarrow> wf_board b'"
  unfolding board_step_def wf_board_def
  by (auto dest: list_all2_lengthD elim!: list_all2_list_all)

lemma board_step_cellAt:
  assumes "board_step b b'" and "wf_board b" and "inb row col"
  shows "cell_step (cellAt b row col) (cellAt b' row col)"
proof -
  from wf_board_nth [OF assms(2,3)] have r: "nat row < length b" and c: "nat col < length (b ! nat row)"
    by auto
  from assms(1) r have "list_all2 cell_step (b ! nat row) (b' ! nat row)"
    unfolding board_step_def by (rule list_all2_nthD)
  from this c show ?thesis
    unfolding cellAt_def by (rule list_all2_nthD)
qed

lemma noOpenMine_step: "board_step b b' \<Longrightarrow> noOpenMine b \<Longrightarrow> noOpenMine b'"
  unfolding board_step_def noOpenMine_def
  by (erule list_all2_list_all, assumption, erule list_all2_list_all, assumption)
     (auto simp: cell_step_def)

lemma openCell_step: "openCell g row col = Inr g' \<Longrightarrow> board_step (board g) (board g')"
  by (auto simp: openCell_def Let_def board_step_refl openCellRecursive_step
           split: if_splits sum.splits simp del: openCellRecursive.simps)

lemma cell_step_frame:
  "cell_step c c' \<Longrightarrow>
     isMine c' = isMine c \<and> isFlagged c' = isFlagged c \<and> adjacentMines c' = adjacentMines c
     \<and> (isOpen c \<longrightarrow> isOpen c')"
  by (auto simp: cell_step_def)

text \<open>
  C7. A reveal that returns leaves \<open>isMine\<close>, \<open>isFlagged\<close> and
  \<open>adjacentMines\<close> of every cell as they were, keeps the board's shape, and
  changes \<open>isOpen\<close> only from false to true: an open cell stays open.
\<close>

theorem openCell_frame:
  assumes "wf_board (board g)" and "openCell g row col = Inr g'"
  shows "wf_board (board g') \<and>
         (\<forall>r c. inb r c \<longrightarrow>
            isMine (cellAt (board g') r c) = isMine (cellAt (board g) r c)
          \<and> isFlagged (cellAt (board g') r c) = isFlagged (cellAt (board g) r c)
          \<and> adjacentMines (cellAt (board g') r c) = adjacentMines (cellAt (board g) r c)
          \<and> (isOpen (cellAt (board g) r c) \<longrightarrow> isOpen (cellAt (board g') r c)))"
proof -
  have s: "board_step (board g) (board g')"
    using assms(2) by (rule openCell_step)
  have "cell_step (cellAt (board g) r c) (cellAt (board g') r c)" if "inb r c" for r c
    using s assms(1) that by (rule board_step_cellAt)
  then show ?thesis
    using board_step_wf [OF s assms(1)] by (blast dest: cell_step_frame)
qed

theorem openCell_frame_witness:
  "wf_board (board exampleGame)
   \<and> openCell exampleGame 5 5 = Inr (exampleGame\<lparr>board := diagonalBoard\<rparr>)
   \<and> wf_board diagonalBoard
   \<and> isMine (cellAt diagonalBoard 0 0) = isMine (cellAt (board exampleGame) 0 0)
   \<and> adjacentMines (cellAt diagonalBoard 1 1) = adjacentMines (cellAt (board exampleGame) 1 1)"
proof -
  have w: "wf_board (board exampleGame)" by code_simp
  have r: "openCell exampleGame 5 5 = Inr (exampleGame\<lparr>board := diagonalBoard\<rparr>)" by code_simp
  have i: "inb 0 0" "inb 1 1" by code_simp+
  show ?thesis using w r i openCell_frame [OF w r] by simp
qed

section \<open>The win predicate\<close>

lemma rowAllSafe_iff: "rowAllSafe row \<longleftrightarrow> (\<forall>cell\<in>set row. isMine cell \<or> isOpen cell)"
  by (induction row) auto

lemma checkWin_iff: "checkWin b \<longleftrightarrow> (\<forall>cell\<in>set (concat b). isMine cell \<or> isOpen cell)"
  by (induction b) (auto simp: rowAllSafe_iff)

lemma noOpenMine_iff: "noOpenMine b \<longleftrightarrow> (\<forall>cell\<in>set (concat b). \<not> (isMine cell \<and> isOpen cell))"
  by (auto simp: noOpenMine_def list_all_iff)

lemma openCell_Win:
  assumes "game_inv g" and "openCell g row col = Inr g'" and "outcome g' = Win"
  shows "checkWin (board g') \<and> noOpenMine (board g')"
proof -
  have "noOpenMine (board g')"
    using openCell_step [OF assms(2)] assms(1) by (auto simp: game_inv_def intro: noOpenMine_step)
  moreover have "checkWin (board g')"
    using assms
    by (auto simp: openCell_def Let_def game_inv_def outcome_def
             split: if_splits sum.splits simp del: openCellRecursive.simps)
  ultimately show ?thesis by simp
qed

text \<open>
  C6. \<open>checkWin\<close> holds of a board exactly when the number of cells that are
  neither mines nor open is zero; and when a reveal, from a state that
  satisfies the invariant of the reachable states, returns a state whose
  outcome is \<open>Win\<close>, every safe cell of the resulting board is open and no
  mine is open.
\<close>

theorem checkWin_spec:
  "(checkWin b \<longleftrightarrow> length (filter (\<lambda>cell. \<not> isMine cell \<and> \<not> isOpen cell) (concat b)) = 0)
   \<and> (game_inv g \<and> openCell g row col = Inr g' \<and> outcome g' = Win \<longrightarrow>
        (\<forall>cell\<in>set (concat (board g')).
           (\<not> isMine cell \<longrightarrow> isOpen cell) \<and> (isMine cell \<longrightarrow> \<not> isOpen cell)))"
proof -
  have "checkWin b \<longleftrightarrow> length (filter (\<lambda>cell. \<not> isMine cell \<and> \<not> isOpen cell) (concat b)) = 0"
    unfolding checkWin_iff by (auto simp: filter_empty_conv)
  moreover have "\<forall>cell\<in>set (concat (board g')).
           (\<not> isMine cell \<longrightarrow> isOpen cell) \<and> (isMine cell \<longrightarrow> \<not> isOpen cell)"
    if "game_inv g" "openCell g row col = Inr g'" "outcome g' = Win"
    using openCell_Win [OF that] unfolding checkWin_iff noOpenMine_iff by blast
  ultimately show ?thesis by blast
qed

theorem checkWin_spec_witness:
  "game_inv (newGame almostWonBoard) \<and> openCell (newGame almostWonBoard) 1 0 = Inr wonGame
   \<and> outcome wonGame = Win
   \<and> list_all (\<lambda>cell. (isMine cell \<or> isOpen cell) \<and> \<not> (isMine cell \<and> isOpen cell))
        (concat (board wonGame))"
proof -
  have 1: "game_inv (newGame almostWonBoard)" by code_simp
  have 2: "openCell (newGame almostWonBoard) 1 0 = Inr wonGame" by code_simp
  have 3: "outcome wonGame = Win" by code_simp
  show ?thesis
    unfolding list_all_iff
    using 1 2 3 checkWin_spec [of "[]" "newGame almostWonBoard" 1 0 wonGame] by blast
qed

section \<open>createBoard\<close>

lemma map_update_same:
  assumes "g y = g (xs ! k)"
  shows "map g (xs[k := y]) = map g xs"
proof (cases "k < length xs")
  case True
  then have "(map g xs)[k := g (xs ! k)] = map g xs"
    by (metis list_update_id nth_map)
  with assms show ?thesis by (simp add: map_update)
next
  case False
  then show ?thesis by (simp add: list_update_beyond)
qed

lemma updAt_proj:
  assumes "\<And>x. p (f x) = p x"
  shows "map (map p) (updAt b row col f) = map (map p) b"
  unfolding updAt_def
  by (intro map_update_same) (simp add: assms)

lemma updAt_lengths: "map length (updAt b row col f) = map length b"
  unfolding updAt_def by (intro map_update_same) simp

lemma wf_board_lengths:
  "wf_board b \<longleftrightarrow> length (map length b) = nat BOARD_SIZE \<and> list_all (\<lambda>n. n = nat BOARD_SIZE) (map length b)"
  by (simp add: wf_board_def list_all_iff)

lemma wf_updAt: "wf_board (updAt b row col f) = wf_board b"
  unfolding wf_board_lengths updAt_lengths ..

lemma cellAt_updAt:
  assumes "wf_board b" and "inb row col" and "inb r c"
  shows "cellAt (updAt b row col f) r c = (if r = row \<and> c = col then f (cellAt b row col) else cellAt b r c)"
proof -
  from wf_board_nth [OF assms(1,2)] wf_board_nth [OF assms(1,3)]
  have "nat row < length b" "nat col < length (b ! nat row)" "nat r < length b" "nat c < length (b ! nat r)"
    by auto
  moreover have "nat r = nat row \<longleftrightarrow> r = row" "nat c = nat col \<longleftrightarrow> c = col"
    using assms(2,3) by (auto simp: inb_def)
  ultimately show ?thesis
    by (auto simp: cellAt_def updAt_def nth_list_update)
qed

lemma proj_cellAt:
  "wf_board b \<Longrightarrow> inb row col \<Longrightarrow> p (cellAt b row col) = map (map p) b ! nat row ! nat col"
  using wf_board_nth [of b row col] by (simp add: cellAt_def)

lemma proj_cellAt_eq:
  assumes "map (map p) b' = map (map p) b" and "wf_board b" and "wf_board b'" and "inb row col"
  shows "p (cellAt b' row col) = p (cellAt b row col)"
  using assms by (simp add: proj_cellAt)

lemma minesOf_proj: "minesOf b = length (filter (\<lambda>x. x) (concat (map (map isMine) b)))"
proof -
  have "concat (map (map isMine) b) = map isMine (concat b)"
    by (simp add: map_concat)
  then show ?thesis
    by (simp add: minesOf_def filter_map comp_def)
qed

lemma filter_update_count:
  "j < length xs \<Longrightarrow> \<not> P (xs ! j) \<Longrightarrow> P y \<Longrightarrow>
     length (filter P (xs[j := y])) = Suc (length (filter P xs))"
  by (induction xs arbitrary: j) (auto split: nat.splits)

lemma concat_update_count:
  "i < length b \<Longrightarrow>
     length (filter P (concat (b[i := r]))) + length (filter P (b ! i))
       = length (filter P (concat b)) + length (filter P r)"
  by (induction b arbitrary: i) (auto split: nat.splits)

lemma minesOf_place:
  assumes "wf_board b" and "inb row col" and "\<not> isMine (cellAt b row col)"
  shows "minesOf (updAt b row col (\<lambda>c. c\<lparr>isMine := True\<rparr>)) = Suc (minesOf b)"
proof -
  from wf_board_nth [OF assms(1,2)]
  have i: "nat row < length b" and j: "nat col < length (b ! nat row)" by auto
  have "length (filter isMine ((b ! nat row)[nat col := (b ! nat row ! nat col)\<lparr>isMine := True\<rparr>]))
          = Suc (length (filter isMine (b ! nat row)))"
    using j assms(3) by (intro filter_update_count) (simp_all add: cellAt_def)
  with concat_update_count [OF i, of isMine "(b ! nat row)[nat col := (b ! nat row ! nat col)\<lparr>isMine := True\<rparr>]"]
  show ?thesis
    by (simp add: minesOf_def updAt_def)
qed

lemma placeMines_inv:
  assumes "list_all (\<lambda>(row, col). inb row col) draws" and "wf_board b"
    and "minesOf b = n" and "n \<le> MINES_COUNT" and "placeMines draws b n = Some b'"
  shows "wf_board b' \<and> minesOf b' = MINES_COUNT
         \<and> map (map isOpen) b' = map (map isOpen) b
         \<and> map (map isFlagged) b' = map (map isFlagged) b"
  using assms
proof (induction draws arbitrary: b n)
  case Nil
  then show ?case by (auto split: if_splits)
next
  case (Cons d draws)
  obtain row col where d: "d = (row, col)" by (cases d)
  show ?case
  proof (cases "n < MINES_COUNT")
    case False
    with Cons.prems show ?thesis by auto
  next
    case less: True
    show ?thesis
    proof (cases "isMine (cellAt b row col)")
      case True
      with less Cons.prems d have "placeMines draws b n = Some b'" by simp
      with Cons.prems show ?thesis by (intro Cons.IH) auto
    next
      case False
      let ?b1 = "updAt b row col (\<lambda>c. c\<lparr>isMine := True\<rparr>)"
      from False less Cons.prems d have run: "placeMines draws ?b1 (n + 1) = Some b'" by simp
      have inb: "inb row col" using Cons.prems(1) d by simp
      have "wf_board b' \<and> minesOf b' = MINES_COUNT
         \<and> map (map isOpen) b' = map (map isOpen) ?b1
         \<and> map (map isFlagged) b' = map (map isFlagged) ?b1"
      proof (rule Cons.IH [OF _ _ _ _ run])
        show "list_all (\<lambda>(row, col). inb row col) draws" using Cons.prems(1) by simp
        show "wf_board ?b1" using Cons.prems(2) by (simp add: wf_updAt)
        show "minesOf ?b1 = n + 1"
          using minesOf_place [OF Cons.prems(2) inb False] Cons.prems(3) by simp
        show "n + 1 \<le> MINES_COUNT" using less by simp
      qed
      then show ?thesis by (simp add: updAt_proj)
    qed
  qed
qed


lemma filter_the_count:
  "length (filter P (map the (filter (\<lambda>cell. cell \<noteq> None) (map g ds))))
     = length (filter (\<lambda>d. case g d of None \<Rightarrow> False | Some cell \<Rightarrow> P cell) ds)"
  by (induction ds) (auto split: option.splits)

lemma neighbourMines_alt:
  "neighbourMines b row col =
     length (filter (\<lambda>(dx, dy). inb (row + dx) (col + dy) \<and> isMine (cellAt b (row + dx) (col + dy)))
               directions)"
  unfolding neighbourMines_def getAdjacentCells_def filter_the_count
  by (intro arg_cong [where f = length] filter_cong refl)
     (auto simp: inb_def Let_def split: if_splits)

lemma neighbourMines_cong:
  assumes "map (map isMine) b' = map (map isMine) b" and "wf_board b" and "wf_board b'"
  shows "neighbourMines b' row col = neighbourMines b row col"
proof -
  have "isMine (cellAt b' r c) = isMine (cellAt b r c)" if "inb r c" for r c
    using assms that by (rule proj_cellAt_eq)
  then show ?thesis
    unfolding neighbourMines_alt
    by (intro arg_cong [where f = length] filter_cong) auto
qed

lemma directions_distinct: "distinct directions"
  by (simp add: directions_def)

lemma directions_set:
  "(dx, dy) \<in> set directions \<longleftrightarrow> \<bar>dx\<bar> \<le> 1 \<and> \<bar>dy\<bar> \<le> 1 \<and> (dx, dy) \<noteq> (0, 0)"
proof
  assume "(dx, dy) \<in> set directions"
  then show "\<bar>dx\<bar> \<le> 1 \<and> \<bar>dy\<bar> \<le> 1 \<and> (dx, dy) \<noteq> (0, 0)"
    by (auto simp: directions_def)
next
  assume a: "\<bar>dx\<bar> \<le> 1 \<and> \<bar>dy\<bar> \<le> 1 \<and> (dx, dy) \<noteq> (0, 0)"
  then have "dx = -1 \<or> dx = 0 \<or> dx = 1" and "dy = -1 \<or> dy = 0 \<or> dy = 1"
    by arith+
  with a show "(dx, dy) \<in> set directions"
    by (elim disjE) (simp_all add: directions_def)
qed

lemma neighbourMines_card:
  "neighbourMines b row col = card {(r, c) \<in> chebyshevNeighbours row col. isMine (cellAt b r c)}"
proof -
  let ?Q = "\<lambda>(dx, dy). inb (row + dx) (col + dy) \<and> isMine (cellAt b (row + dx) (col + dy))"
  let ?sh = "\<lambda>(dx, dy). (row + dx, col + dy)"
  have inj: "inj_on ?sh A" for A
    by (auto simp: inj_on_def)
  have "neighbourMines b row col = card (set (filter ?Q directions))"
    unfolding neighbourMines_alt
    by (rule distinct_card [symmetric]) (simp add: directions_distinct)
  also have "\<dots> = card (?sh ` set (filter ?Q directions))"
    by (rule card_image [symmetric]) (rule inj)
  also have "?sh ` set (filter ?Q directions)
               = {(r, c) \<in> chebyshevNeighbours row col. isMine (cellAt b r c)}"
  proof (intro set_eqI iffI)
    fix p assume "p \<in> ?sh ` set (filter ?Q directions)"
    then obtain dx dy where "(dx, dy) \<in> set directions" "?Q (dx, dy)" "p = (row + dx, col + dy)"
      by auto
    then show "p \<in> {(r, c) \<in> chebyshevNeighbours row col. isMine (cellAt b r c)}"
      by (auto simp: directions_set chebyshevNeighbours_def)
  next
    fix p assume "p \<in> {(r, c) \<in> chebyshevNeighbours row col. isMine (cellAt b r c)}"
    then obtain r c where p: "p = (r, c)" "(r, c) \<in> chebyshevNeighbours row col" "isMine (cellAt b r c)"
      by auto
    then have "(r - row, c - col) \<in> set directions"
      by (auto simp: directions_set chebyshevNeighbours_def)
    moreover have "?Q (r - row, c - col)"
      using p by (simp add: chebyshevNeighbours_def)
    ultimately have "(r - row, c - col) \<in> set (filter ?Q directions)" by simp
    then have "?sh (r - row, c - col) \<in> ?sh ` set (filter ?Q directions)"
      by (rule imageI)
    then show "p \<in> ?sh ` set (filter ?Q directions)"
      using p(1) by simp
  qed
  finally show ?thesis .
qed

lemma countCell_wf: "wf_board (countCell b row col) = wf_board b"
  by (simp add: countCell_def wf_updAt)

lemma countCell_proj:
  assumes "\<And>x n. p (x\<lparr>adjacentMines := n\<rparr>) = p x"
  shows "map (map p) (countCell b row col) = map (map p) b"
  by (simp add: countCell_def updAt_proj assms)

lemma countCell_adjacentMines:
  assumes "wf_board b" and "inb row col" and "inb r c"
  shows "adjacentMines (cellAt (countCell b row col) r c)
           = (if (r, c) = (row, col) \<and> \<not> isMine (cellAt b row col)
              then neighbourMines b row col else adjacentMines (cellAt b r c))"
  using assms by (auto simp: countCell_def cellAt_updAt neighbourMines_def)

lemma fold_countCell:
  assumes "wf_board b" and "list_all (\<lambda>(row, col). inb row col) ps"
  shows "wf_board (fold (\<lambda>(row, col) acc. countCell acc row col) ps b)
       \<and> map (map isMine) (fold (\<lambda>(row, col) acc. countCell acc row col) ps b) = map (map isMine) b
       \<and> map (map isOpen) (fold (\<lambda>(row, col) acc. countCell acc row col) ps b) = map (map isOpen) b
       \<and> map (map isFlagged) (fold (\<lambda>(row, col) acc. countCell acc row col) ps b) = map (map isFlagged) b
       \<and> (\<forall>r c. inb r c \<longrightarrow>
            adjacentMines (cellAt (fold (\<lambda>(row, col) acc. countCell acc row col) ps b) r c)
              = (if (r, c) \<in> set ps \<and> \<not> isMine (cellAt b r c)
                 then neighbourMines b r c else adjacentMines (cellAt b r c)))"
  using assms
proof (induction ps arbitrary: b)
  case Nil
  then show ?case by simp
next
  case (Cons p ps)
  obtain row col where p: "p = (row, col)" by (cases p)
  let ?b1 = "countCell b row col"
  let ?b' = "fold (\<lambda>(row, col) acc. countCell acc row col) ps ?b1"
  have inb: "inb row col" using Cons.prems(2) p by simp
  have wf1: "wf_board ?b1" using Cons.prems(1) by (simp add: countCell_wf)
  have m1: "map (map isMine) ?b1 = map (map isMine) b" by (simp add: countCell_proj)
  have IH: "wf_board ?b'
       \<and> map (map isMine) ?b' = map (map isMine) ?b1
       \<and> map (map isOpen) ?b' = map (map isOpen) ?b1
       \<and> map (map isFlagged) ?b' = map (map isFlagged) ?b1
       \<and> (\<forall>r c. inb r c \<longrightarrow>
            adjacentMines (cellAt ?b' r c)
              = (if (r, c) \<in> set ps \<and> \<not> isMine (cellAt ?b1 r c)
                 then neighbourMines ?b1 r c else adjacentMines (cellAt ?b1 r c)))"
    using wf1 Cons.prems(2) by (intro Cons.IH) simp_all
  have mine1: "isMine (cellAt ?b1 r c) = isMine (cellAt b r c)" if "inb r c" for r c
    using m1 Cons.prems(1) wf1 that by (rule proj_cellAt_eq)
  have nm1: "neighbourMines ?b1 r c = neighbourMines b r c" for r c
    using m1 Cons.prems(1) wf1 by (rule neighbourMines_cong)
  have "adjacentMines (cellAt ?b' r c)
          = (if (r, c) \<in> set (p # ps) \<and> \<not> isMine (cellAt b r c)
             then neighbourMines b r c else adjacentMines (cellAt b r c))" if "inb r c" for r c
    using IH that mine1 [OF that] mine1 [OF inb] nm1
          countCell_adjacentMines [OF Cons.prems(1) inb that] p
    by auto
  with IH show ?case
    by (simp add: p countCell_proj)
qed

lemma fold_fold_product:
  "fold (\<lambda>row b1. fold (\<lambda>col b2. g b2 row col) cs b1) rs b
     = fold (\<lambda>(row, col) acc. g acc row col) (List.product rs cs) b"
  by (induction rs arbitrary: b) (simp_all add: fold_map comp_def)

lemma countAll_fold:
  "countAll b = fold (\<lambda>(row, col) acc. countCell acc row col)
                     (List.product [0..BOARD_SIZE - 1] [0..BOARD_SIZE - 1]) b"
  unfolding countAll_def by (rule fold_fold_product)

lemma countAll_props:
  assumes "wf_board b"
  shows "wf_board (countAll b)
       \<and> map (map isMine) (countAll b) = map (map isMine) b
       \<and> map (map isOpen) (countAll b) = map (map isOpen) b
       \<and> map (map isFlagged) (countAll b) = map (map isFlagged) b
       \<and> (\<forall>r c. inb r c \<longrightarrow> \<not> isMine (cellAt b r c) \<longrightarrow>
            adjacentMines (cellAt (countAll b) r c) = neighbourMines b r c)"
proof -
  have all: "list_all (\<lambda>(row, col). inb row col) (List.product [0..BOARD_SIZE - 1] [0..BOARD_SIZE - 1])"
    by (auto simp: list_all_iff inb_def)
  have mem: "(r, c) \<in> set (List.product [0..BOARD_SIZE - 1] [0..BOARD_SIZE - 1])" if "inb r c" for r c
    using that by (auto simp: inb_def)
  from fold_countCell [OF assms all] mem show ?thesis
    unfolding countAll_fold by auto
qed


lemma blankBoard_props:
  "wf_board blankBoard" "minesOf blankBoard = 0"
  "list_all (\<lambda>x. \<not> x) (concat (map (map isOpen) blankBoard))"
  "list_all (\<lambda>x. \<not> x) (concat (map (map isFlagged) blankBoard))"
  by code_simp+

lemma proj_all:
  assumes "map (map p) b = map (map p) b0" and "list_all (\<lambda>x. \<not> x) (concat (map (map p) b0))"
    and "cell \<in> set (concat b)"
  shows "\<not> p cell"
proof -
  have "p cell \<in> set (map p (concat b))" using assms(3) by simp
  also have "map p (concat b) = concat (map (map p) b0)"
    using assms(1) by (simp add: map_concat)
  finally have "p cell \<in> set (concat (map (map p) b0))" .
  with assms(2) show ?thesis unfolding list_all_iff by blast
qed

lemma createBoard_props:
  assumes "list_all (\<lambda>(row, col). inb row col) draws" and "createBoard draws = Some b"
  shows "wf_board b" and "minesOf b = MINES_COUNT"
    and "\<forall>cell\<in>set (concat b). \<not> isOpen cell \<and> \<not> isFlagged cell"
    and "\<forall>row col. inb row col \<longrightarrow> \<not> isMine (cellAt b row col) \<longrightarrow>
           adjacentMines (cellAt b row col) = neighbourMines b row col"
proof -
  from assms(2) obtain b0 where run: "placeMines draws blankBoard 0 = Some b0" and b: "b = countAll b0"
    by (auto simp: createBoard_def)
  have p: "wf_board b0 \<and> minesOf b0 = MINES_COUNT
         \<and> map (map isOpen) b0 = map (map isOpen) blankBoard
         \<and> map (map isFlagged) b0 = map (map isFlagged) blankBoard"
    using assms(1) blankBoard_props(1,2) _ run by (rule placeMines_inv) simp
  then have wf0: "wf_board b0" by simp
  note c = countAll_props [OF wf0]
  show wf: "wf_board b" using c b by simp
  show "minesOf b = MINES_COUNT"
    using c p b by (simp add: minesOf_proj)
  have o: "map (map isOpen) b = map (map isOpen) blankBoard"
    and f: "map (map isFlagged) b = map (map isFlagged) blankBoard"
    using c p b by simp_all
  show "\<forall>cell\<in>set (concat b). \<not> isOpen cell \<and> \<not> isFlagged cell"
    using proj_all [OF o blankBoard_props(3)] proj_all [OF f blankBoard_props(4)] by blast
  have m: "map (map isMine) b = map (map isMine) b0" using c b by simp
  have "adjacentMines (cellAt b row col) = neighbourMines b row col"
    if "inb row col" "\<not> isMine (cellAt b row col)" for row col
  proof -
    have "\<not> isMine (cellAt b0 row col)"
      using that proj_cellAt_eq [OF m wf0 wf that(1)] by simp
    with c that(1) have "adjacentMines (cellAt b row col) = neighbourMines b0 row col"
      unfolding b by blast
    also have "\<dots> = neighbourMines b row col"
      using neighbourMines_cong [OF m wf0 wf] by simp
    finally show ?thesis .
  qed
  then show "\<forall>row col. inb row col \<longrightarrow> \<not> isMine (cellAt b row col) \<longrightarrow>
           adjacentMines (cellAt b row col) = neighbourMines b row col"
    by blast
qed

text \<open>
  C5. Every board that \<open>createBoard\<close> returns, on draws in
  \<open>[0, BOARD_SIZE)\<close>, has the program's shape and exactly 10 mine cells, has
  no open and no flagged cell, and stores in every safe cell the number of
  mines among its Chebyshev neighbours inside the grid.
\<close>

theorem createBoard_spec:
  assumes "list_all (\<lambda>(row, col). inb row col) draws" and "createBoard draws = Some b"
  shows "wf_board b
       \<and> length (filter isMine (concat b)) = 10
       \<and> (\<forall>cell\<in>set (concat b). \<not> isOpen cell \<and> \<not> isFlagged cell)
       \<and> (\<forall>row col. inb row col \<longrightarrow> \<not> isMine (cellAt b row col) \<longrightarrow>
            adjacentMines (cellAt b row col)
              = card {(r, c) \<in> chebyshevNeighbours row col. isMine (cellAt b r c)})"
  using createBoard_props [OF assms]
  by (simp add: minesOf_def MINES_COUNT_def neighbourMines_card)

theorem createBoard_spec_witness:
  "list_all (\<lambda>(row, col). inb row col) exampleDraws \<and> createBoard exampleDraws = Some exampleBoard
   \<and> length (filter isMine (concat exampleBoard)) = 10
   \<and> adjacentMines (cellAt exampleBoard 1 0)
       = card {(r, c) \<in> chebyshevNeighbours 1 0. isMine (cellAt exampleBoard r c)}"
proof -
  have d: "list_all (\<lambda>(row, col). inb row col) exampleDraws" by code_simp
  have c: "createBoard exampleDraws = Some exampleBoard" by code_simp
  have i: "inb 1 0" "\<not> isMine (cellAt exampleBoard 1 0)" by code_simp+
  show ?thesis using d c i createBoard_spec [OF d c] by blast
qed

section \<open>The invariant of the reachable states\<close>

lemma newGame_inv:
  assumes "list_all (\<lambda>(row, col). inb row col) draws" and "createBoard draws = Some b"
  shows "game_inv (newGame b)"
  using createBoard_props(1,3) [OF assms]
  by (auto simp: game_inv_def newGame_def noOpenMine_iff)

lemma openCell_inv:
  assumes "game_inv g" and "openCell g row col = Inr g'"
  shows "game_inv g'"
proof -
  note s = openCell_step [OF assms(2)]
  have "wf_board (board g')" "noOpenMine (board g')"
    using s assms(1) by (auto simp: game_inv_def intro: board_step_wf noOpenMine_step)
  moreover have "isGameWon g' \<longrightarrow> checkWin (board g')"
    using assms
    by (auto simp: openCell_def Let_def game_inv_def
             split: if_splits sum.splits simp del: openCellRecursive.simps)
  ultimately show ?thesis by (simp add: game_inv_def)
qed

lemma reachable_inv: "reachable g \<Longrightarrow> game_inv g"
proof (induction rule: reachable.induct)
  case (start draws b)
  then show ?case by (rule newGame_inv)
next
  case (reveal g row col g')
  then show ?case by (auto intro: openCell_inv)
next
  case (tick g)
  then show ?case by (simp add: game_inv_def)
qed

section \<open>Reveal: coordinates outside the grid\<close>

lemma openCellRecursive_outside: "\<not> inb row col \<Longrightarrow> openCellRecursive b row col = b"
  by (subst openCellRecursive_unfold) (auto simp: inb_def)

lemma openCell_terminal: "outcome g \<noteq> InProgress \<Longrightarrow> openCell g row col = Inr g"
  by (auto simp: openCell_def outcome_def split: if_splits)

lemma openCell_returns:
  assumes "reachable g" and "inb row col"
  shows "\<exists>g'. openCell g row col = Inr g'"
proof -
  have "wf_board (board g)"
    using reachable_inv [OF assms(1)] by (simp add: game_inv_def)
  then have "readCell (board g) row col = Inr (cellAt (board g) row col)"
    using assms(2) by (rule readCell_inb)
  then show ?thesis
    by (simp add: openCell_def Let_def del: openCellRecursive.simps)
qed

lemma exampleGame_reachable: "reachable exampleGame"
proof -
  have d: "list_all (\<lambda>(row, col). inb row col) exampleDraws" by code_simp
  have c: "createBoard exampleDraws = Some exampleBoard" by code_simp
  show ?thesis unfolding exampleGame_def using d c by (rule reachable.start)
qed

text \<open>
  In a game in progress \<open>openCell\<close> reads \<open>board[row][col]\<close> before any
  bounds check, so a call at row \<open>-1\<close> throws instead of returning.
\<close>

theorem openCell_out_of_bounds_faults:
  "\<not> inb (-1) 0 \<and> outcome exampleGame = InProgress \<and> openCell exampleGame (-1) 0 = Inl TypeError"
  by code_simp

text \<open>
  C3. Outside the grid, the flood-fill step \<open>openCellRecursive\<close> returns the
  board as it is, and so does \<open>openCell\<close> once the game is won or lost.
  \<open>openCell\<close> is called by the grid view only, with the indices of a rendered
  cell: in every state the application reaches, a reveal at an in-bounds
  coordinate returns a state and does not fault.
\<close>

theorem openCell_bounds:
  "(\<not> inb row col \<longrightarrow> openCellRecursive b row col = b)
   \<and> (\<not> inb row col \<and> outcome g \<noteq> InProgress \<longrightarrow> openCell g row col = Inr g)
   \<and> (reachable h \<and> inb r c \<longrightarrow> (\<exists>h'. openCell h r c = Inr h'))"
  using openCellRecursive_outside [of row col b] openCell_terminal [of g row col]
        openCell_returns [of h r c]
  by blast

theorem openCell_bounds_witness:
  "\<not> inb (-1) 0 \<and> outcome (exampleGame\<lparr>isGameOver := True\<rparr>) \<noteq> InProgress
   \<and> reachable exampleGame \<and> inb 5 5
   \<and> openCellRecursive exampleBoard (-1) 0 = exampleBoard
   \<and> openCell (exampleGame\<lparr>isGameOver := True\<rparr>) (-1) 0 = Inr (exampleGame\<lparr>isGameOver := True\<rparr>)
   \<and> (\<exists>h'. openCell exampleGame 5 5 = Inr h')"
proof -
  have 1: "\<not> inb (-1) 0" by code_simp
  have 2: "outcome (exampleGame\<lparr>isGameOver := True\<rparr>) \<noteq> InProgress" by code_simp
  have 3: "inb 5 5" by code_simp
  show ?thesis
    using 1 2 3 exampleGame_reachable
      openCell_bounds [of "-1" 0 exampleBoard "exampleGame\<lparr>isGameOver := True\<rparr>" exampleGame 5 5]
    by blast
qed


end
